theory Spec2Isabelle
  imports Main
begin

section \<open>Data model of \<open>script.js\<close>\<close>

text \<open>
  A fact (symptom, intermediate symptom or medicine) is a JavaScript string. A rule is an
  object with an array of groups (ANDed; the strings inside a group are ORed), a result and
  the flag \<open>intermediate\<close>. A task carries its id, its rules and the array of observed
  symptoms.
\<close>

type_synonym fact = string

record rule =
  groups :: "fact list list"
  result :: fact
  intermediate :: bool

record task =
  task_id :: nat
  rules :: "rule list"
  observed :: "fact list"

text \<open>
  The object returned by \<open>evaluateTask\<close>. \<open>derived\<close> is a JavaScript \<open>Set\<close>,
  \<open>finalScores\<close> and \<open>usedCombos\<close> are plain objects used as dictionaries.
\<close>

record evaluation =
  derived :: "fact list"
  finalScores :: "(fact \<times> nat) list"
  usedCombos :: "(fact \<times> fact list) list"

subsection \<open>JavaScript containers\<close>

text \<open>
  A \<open>Set\<close> is the list of its elements in insertion order: \<open>add\<close> appends an element
  that is not yet present and leaves the set alone otherwise, \<open>delete\<close> removes the
  element wherever it sits, \<open>has\<close> tests membership. \<open>Array.prototype.includes\<close> is
  membership in the array.
\<close>

definition Set_has :: "fact list \<Rightarrow> fact \<Rightarrow> bool" where
  "Set_has s x = (x \<in> set s)"

definition Set_add :: "fact list \<Rightarrow> fact \<Rightarrow> fact list" where
  "Set_add s x = (if x \<in> set s then s else s @ [x])"

definition Set_delete :: "fact list \<Rightarrow> fact \<Rightarrow> fact list" where
  "Set_delete s x = removeAll x s"

definition Array_includes :: "fact list \<Rightarrow> fact \<Rightarrow> bool" where
  "Array_includes xs x = (x \<in> set xs)"

text \<open>
  A plain object used as a dictionary is the list of its own properties in insertion
  order. For an ordinary property name the assignment \<open>obj[k] = v\<close> replaces the value
  of an existing own property in place and appends a new own property otherwise.
  \<open>Object.keys\<close> and \<open>Object.values\<close> are the two projections, and \<open>map_of\<close> looks
  an own property up (\<open>None\<close> when there is none). \<open>Object.keys\<close> lists integer-like
  names first; that reordering is not modelled, and no function below depends on the order
  of the properties.
\<close>

fun obj_set :: "(fact \<times> 'v) list \<Rightarrow> fact \<Rightarrow> 'v \<Rightarrow> (fact \<times> 'v) list" where
  "obj_set [] k v = [(k, v)]"
| "obj_set ((k', v') # kvs) k v =
     (if k' = k then (k, v) # kvs else (k', v') # obj_set kvs k v)"

text \<open>
  The one name that is not ordinary on an object created by \<open>{}\<close> is \<open>__proto__\<close>, an
  accessor property of \<open>Object.prototype\<close>: the assignment \<open>obj['__proto__'] = v\<close> calls
  its setter and creates no own property.

  \<^item> When \<open>v\<close> is a number, as in \<open>finalScores[rule.result] = bestCount\<close>, the setter
    ignores the value and the object is left as it was. \<open>obj_set_number\<close> is that
    assignment; the prototype of \<open>finalScores\<close> therefore never changes, and every other
    name it is assigned becomes an own property.
  \<^item> When \<open>v\<close> is an object, as in \<open>usedCombos[rule.result] = bestSet\<close>, the setter
    makes \<open>v\<close> the prototype of the object, and \<open>obj['__proto__']\<close> reads \<open>v\<close> back.
    The list for \<open>usedCombos\<close> is built with \<open>obj_set\<close> and keeps that pair, so that
    \<open>map_of\<close> on it gives what \<open>usedCombos[k]\<close> reads for \<open>__proto__\<close> as for an
    ordinary name. Its \<open>Object_keys\<close> are the own property names as long as the loop
    never assigns \<open>__proto__\<close>. Once it has, that name is not an own key, and with a
    \<open>Set\<close> as prototype the name \<open>size\<close> (an accessor without setter of
    \<open>Set.prototype\<close>) can no longer be assigned; the list does not follow the object
    there. The statements below about the keys of \<open>usedCombos\<close> are therefore made for
    tasks in which \<open>__proto__\<close> is not an eligible conclusion.
\<close>

definition obj_set_number :: "(fact \<times> nat) list \<Rightarrow> fact \<Rightarrow> nat \<Rightarrow> (fact \<times> nat) list" where
  "obj_set_number obj k v = (if k = ''__proto__'' then obj else obj_set obj k v)"

definition Object_keys :: "(fact \<times> 'v) list \<Rightarrow> fact list" where
  "Object_keys obj = map fst obj"

definition Object_values :: "(fact \<times> 'v) list \<Rightarrow> 'v list" where
  "Object_values obj = map snd obj"

section \<open>\<open>evaluateTask\<close>\<close>

subsection \<open>Forward chaining (lines 500--514)\<close>

text \<open>
  The test \<open>observed.includes(sym) || derived.has(sym)\<close>, which the source writes out
  in both loops.
\<close>

definition available :: "fact list \<Rightarrow> fact list \<Rightarrow> fact \<Rightarrow> bool" where
  "available obs der symptom = (Array_includes obs symptom \<or> Set_has der symptom)"

text \<open>
  \<open>rule.groups.every(group => group.some(...))\<close>. \<open>every\<close> of an empty array is
  \<open>true\<close>, \<open>some\<close> of an empty array is \<open>false\<close>, as \<open>list_all\<close> and
  \<open>list_ex\<close> are.
\<close>

definition satisfied :: "fact list \<Rightarrow> fact list \<Rightarrow> rule \<Rightarrow> bool" where
  "satisfied obs der r = list_all (\<lambda>grp. list_ex (available obs der) grp) (groups r)"

text \<open>
  One run of the \<open>for\<close> loop over \<open>task.rules\<close> inside the \<open>while\<close> loop. The state
  is the set \<open>derived\<close> and the flag \<open>changed\<close>.
\<close>

fun chainPass :: "fact list \<Rightarrow> rule list \<Rightarrow> fact list \<times> bool \<Rightarrow> fact list \<times> bool" where
  "chainPass obs [] (der, changed) = (der, changed)"
| "chainPass obs (r # rs) (der, changed) =
     (if intermediate r \<and> \<not> Set_has der (result r) then
        (if satisfied obs der r
         then chainPass obs rs (Set_add der (result r), True)
         else chainPass obs rs (der, changed))
      else chainPass obs rs (der, changed))"

lemma chainPass_superset: "set der \<subseteq> set (fst (chainPass obs rs (der, ch)))"
proof (induction rs arbitrary: der ch)
  case Nil
  show ?case by simp
next
  case (Cons r rs)
  have "set der \<subseteq> set (Set_add der (result r))"
    by (auto simp: Set_add_def)
  with Cons.IH [of "Set_add der (result r)" True] Cons.IH [of der ch]
  show ?case by auto
qed

lemma chainPass_results:
  "set (fst (chainPass obs rs (der, ch)))
     \<subseteq> set der \<union> result ` {r \<in> set rs. intermediate r}"
proof (induction rs arbitrary: der ch)
  case Nil
  show ?case by simp
next
  case (Cons r rs)
  show ?case
  proof (cases "intermediate r \<and> \<not> Set_has der (result r) \<and> satisfied obs der r")
    case True
    have "set (Set_add der (result r)) \<subseteq> insert (result r) (set der)"
      by (auto simp: Set_add_def)
    with Cons.IH [of "Set_add der (result r)" True] True
    show ?thesis by auto
  next
    case False
    with Cons.IH [of der ch] show ?thesis by auto
  qed
qed

lemma chainPass_changed:
  "snd (chainPass obs rs (der, ch)) \<Longrightarrow> \<not> ch
     \<Longrightarrow> set der \<subset> set (fst (chainPass obs rs (der, ch)))"
proof (induction rs arbitrary: der ch)
  case Nil
  then show ?case by simp
next
  case (Cons r rs)
  show ?case
  proof (cases "intermediate r \<and> \<not> Set_has der (result r) \<and> satisfied obs der r")
    case True
    then have new: "result r \<notin> set der"
      by (simp add: Set_has_def)
    have "result r \<in> set (Set_add der (result r))"
      by (simp add: Set_add_def)
    moreover have "set der \<subseteq> set (Set_add der (result r))"
      by (auto simp: Set_add_def)
    moreover note chainPass_superset [of "Set_add der (result r)" obs rs True]
    ultimately have "set der \<subseteq> set (fst (chainPass obs rs (Set_add der (result r), True)))"
      and "result r \<in> set (fst (chainPass obs rs (Set_add der (result r), True)))"
      by auto
    with new True show ?thesis by auto
  next
    case False
    with Cons.IH [of der ch] Cons.prems show ?thesis by auto
  qed
qed

text \<open>
  The \<open>while (changed)\<close> loop. Each round that reports a change has added the result
  of an intermediate rule that was not yet derived, so the number of such results still
  missing goes down and the loop ends.
\<close>

function forwardChain :: "fact list \<Rightarrow> rule list \<Rightarrow> fact list \<Rightarrow> fact list" where
  "forwardChain obs rs der =
     (case chainPass obs rs (der, False) of
        (der', changed) \<Rightarrow> if changed then forwardChain obs rs der' else der')"
  by pat_completeness auto
termination
proof (relation "measure (\<lambda>(obs, rs, der). card (result ` {r \<in> set rs. intermediate r} - set der))")
  show "wf (measure (\<lambda>(obs, rs, der). card (result ` {r \<in> set rs. intermediate r} - set der)))"
    by simp
next
  fix obs :: "fact list" and rs :: "rule list" and der x :: "fact list" and y :: bool
  assume eq: "(x, y) = chainPass obs rs (der, False)" and y
  let ?R = "result ` {r \<in> set rs. intermediate r}"
  from eq \<open>y\<close> have "snd (chainPass obs rs (der, False))"
    by (metis snd_conv)
  then have "set der \<subset> set (fst (chainPass obs rs (der, False)))"
    by (rule chainPass_changed) simp
  with eq have strict: "set der \<subset> set x"
    by (metis fst_conv)
  from chainPass_results [of obs rs der False] eq have sub: "set x \<subseteq> set der \<union> ?R"
    by (metis fst_conv)
  have "?R - set x \<subset> ?R - set der"
    using strict sub by blast
  moreover have "finite (?R - set der)"
    by simp
  ultimately have "card (?R - set x) < card (?R - set der)"
    by (rule psubset_card_mono [rotated])
  then show "((obs, rs, x), (obs, rs, der))
      \<in> measure (\<lambda>(obs, rs, der). card (result ` {r \<in> set rs. intermediate r} - set der))"
    by simp
qed

declare forwardChain.simps [simp del]

subsection \<open>Scoring the final medicines (lines 515--555)\<close>

text \<open>
  The inner \<open>for\<close> loop over \<open>rule.groups\<close> that fills \<open>satisfiedGroups\<close>. The
  \<open>break\<close> with \<open>allSatisfied = false\<close> is the value \<open>None\<close>.
\<close>

fun collectGroups ::
  "fact list \<Rightarrow> fact list \<Rightarrow> fact list list \<Rightarrow> fact list list \<Rightarrow> fact list list option" where
  "collectGroups obs der [] satisfiedGroups = Some satisfiedGroups"
| "collectGroups obs der (grp # rest) satisfiedGroups =
     (let availableSyms = filter (available obs der) grp
      in if length availableSyms = 0 then None
         else collectGroups obs der rest (satisfiedGroups @ [availableSyms]))"

text \<open>
  \<open>explore\<close> is a closure over \<open>satisfiedGroups\<close>, \<open>observed\<close> and the two variables
  \<open>bestCount\<close> and \<open>bestSet\<close>; \<open>currentSet\<close> is one \<open>Set\<close> object that every
  recursive call mutates. The three mutable things are the state that \<open>explore\<close> takes
  and returns.
\<close>

record explore_state =
  currentSet :: "fact list"
  bestCount :: nat
  bestSet :: "fact list"

function explore ::
  "fact list \<Rightarrow> fact list list \<Rightarrow> nat \<Rightarrow> explore_state \<Rightarrow> explore_state" where
  "explore obs satisfiedGroups idx st =
     (if idx \<ge> length satisfiedGroups then
        (let count = length (filter (Array_includes obs) (currentSet st))
         in if count > bestCount st
            then st\<lparr>bestCount := count, bestSet := currentSet st\<rparr>
            else st)
      else
        fold (\<lambda>symptom st.
               (let st1 = st\<lparr>currentSet := Set_add (currentSet st) symptom\<rparr>;
                    st2 = explore obs satisfiedGroups (idx + 1) st1
                in st2\<lparr>currentSet := Set_delete (currentSet st2) symptom\<rparr>))
             (satisfiedGroups ! idx) st)"
  by pat_completeness auto
termination
  by (relation "measure (\<lambda>(obs, satisfiedGroups, idx, st). length satisfiedGroups - idx)") auto

declare explore.simps [simp del]

text \<open>
  The outer \<open>for\<close> loop over \<open>task.rules\<close>; \<open>continue\<close> leaves the two objects as
  they are.
\<close>

fun scoreRules ::
  "fact list \<Rightarrow> fact list \<Rightarrow> rule list
    \<Rightarrow> (fact \<times> nat) list \<times> (fact \<times> fact list) list
    \<Rightarrow> (fact \<times> nat) list \<times> (fact \<times> fact list) list" where
  "scoreRules obs der [] (fs, uc) = (fs, uc)"
| "scoreRules obs der (r # rs) (fs, uc) =
     (if \<not> intermediate r then
        (case collectGroups obs der (groups r) [] of
           None \<Rightarrow> scoreRules obs der rs (fs, uc)
         | Some satisfiedGroups \<Rightarrow>
             (let st = explore obs satisfiedGroups 0
                         \<lparr>currentSet = [], bestCount = 0, bestSet = []\<rparr>
              in scoreRules obs der rs
                   (obj_set_number fs (result r) (bestCount st),
                    obj_set uc (result r) (bestSet st))))
      else scoreRules obs der rs (fs, uc))"

definition evaluateTask :: "task \<Rightarrow> evaluation" where
  "evaluateTask t =
     (let der = forwardChain (observed t) (rules t) [];
          (fs, uc) = scoreRules (observed t) der (rules t) ([], [])
      in \<lparr>derived = der, finalScores = fs, usedCombos = uc\<rparr>)"

section \<open>The correctness grade of \<open>finalizeAnswer\<close> (lines 353--364)\<close>

text \<open>
  The three grades that \<open>finalizeAnswer\<close> records.
\<close>

datatype correctness = best | suboptimal | wrong

text \<open>
  \<open>Math.max(...Object.values(evalScores))\<close>. With no argument \<open>Math.max\<close> returns
  \<open>-Infinity\<close>, which is the value \<open>None\<close> here.
\<close>

definition Math_max :: "nat list \<Rightarrow> nat option" where
  "Math_max vs = (case vs of [] \<Rightarrow> None | v # rest \<Rightarrow> Some (fold max rest v))"

text \<open>
  The block that computes \<open>correctness\<close>. \<open>finalAnswer\<close> is the value of the checked
  radio button or \<open>null\<close> (\<open>None\<close>). The test \<open>if (finalAnswer)\<close> is JavaScript
  truthiness: it fails for \<open>null\<close> and for the empty string. \<open>evalScores[m] === bestScore\<close>
  and \<open>evalScores[finalAnswer] > 0\<close> are \<open>false\<close> for a missing property.
\<close>

fun finalizeAnswer_correctness :: "(fact \<times> nat) list \<Rightarrow> fact option \<Rightarrow> correctness" where
  "finalizeAnswer_correctness evalScores None = wrong"
| "finalizeAnswer_correctness evalScores (Some finalAnswer) =
     (if finalAnswer = [] then wrong
      else
        (let bestScore = Math_max (Object_values evalScores);
             bestMeds = filter (\<lambda>m. case map_of evalScores m of
                                       None \<Rightarrow> False
                                     | Some v \<Rightarrow> Some v = bestScore)
                          (Object_keys evalScores)
         in if finalAnswer \<in> set bestMeds then best
            else if (case map_of evalScores finalAnswer of None \<Rightarrow> False | Some v \<Rightarrow> v > 0)
                 then suboptimal
                 else wrong))"

section \<open>Tasks\<close>

text \<open>
  The four tasks of the source share one treatment plan; tasks 1 and 2 are written out.
\<close>

definition plan :: "rule list" where
  "plan =
    [\<lparr>groups = [[''shortness of breath'', ''seizures'', ''brain fog'', ''neck pain'']],
      result = ''broken bones'', intermediate = True\<rparr>,
     \<lparr>groups = [[''brain fog'', ''slurred speech''],
                [''slurred speech'', ''seizures'', ''sleepy''], [''bloating'']],
      result = ''fast heart rate'', intermediate = True\<rparr>,
     \<lparr>groups = [[''seizures'', ''shortness of breath'', ''brain fog'', ''confusion'']],
      result = ''low blood pressure'', intermediate = True\<rparr>,
     \<lparr>groups = [[''shortness of breath'', ''sleepy'', ''aching joints'']],
      result = ''stimulants'', intermediate = False\<rparr>,
     \<lparr>groups = [[''migraine''], [''thirsty''], [''bloating''], [''low blood pressure'']],
      result = ''tranquilizers'', intermediate = False\<rparr>,
     \<lparr>groups = [[''shortness of breath'', ''aching joints'', ''jaundice'', ''confusion'']],
      result = ''antibiotics'', intermediate = False\<rparr>,
     \<lparr>groups = [[''broken bones'', ''seizures''], [''thirsty''],
                [''vomiting'', ''aching joints'']],
      result = ''vitamins'', intermediate = False\<rparr>,
     \<lparr>groups = [[''neck pain'', ''rash'', ''jaundice''], [''slurred speech'', ''rash'']],
      result = ''laxatives'', intermediate = False\<rparr>]"

definition task1 :: task where
  "task1 = \<lparr>task_id = 1, rules = plan,
            observed = [''thirsty'', ''vomiting'', ''bloating'', ''migraine'', ''brain fog'']\<rparr>"

definition task2 :: task where
  "task2 = \<lparr>task_id = 2, rules = plan,
            observed = [''seizures'', ''thirsty'', ''vomiting'', ''bloating'', ''neck pain'']\<rparr>"

text \<open>
  Small tasks on which the engine is run below: two rules without groups; two final rules
  with the same result; a final rule that only a derived symptom satisfies; a final rule
  whose groups share a symptom; a final rule whose result is the name \<open>__proto__\<close>.
\<close>

definition emptyGroupsTask :: task where
  "emptyGroupsTask = \<lparr>task_id = 0,
     rules = [\<lparr>groups = [], result = ''x'', intermediate = True\<rparr>,
              \<lparr>groups = [], result = ''m'', intermediate = False\<rparr>],
     observed = []\<rparr>"

definition overwriteRules :: "rule list" where
  "overwriteRules =
     [\<lparr>groups = [[''a''], [''b'']], result = ''m'', intermediate = False\<rparr>,
      \<lparr>groups = [[''c'']], result = ''m'', intermediate = False\<rparr>]"

definition overwriteTask :: task where
  "overwriteTask = \<lparr>task_id = 0, rules = overwriteRules, observed = [''a'', ''b'', ''c'']\<rparr>"


definition sharedFactTask :: task where
  "sharedFactTask = \<lparr>task_id = 0,
     rules = [\<lparr>groups = [[''b'']], result = ''a'', intermediate = True\<rparr>,
              \<lparr>groups = [[''a''], [''a'', ''b'']], result = ''m'', intermediate = False\<rparr>],
     observed = [''b'']\<rparr>"


section \<open>Notions of the specification\<close>

text \<open>
  The facts derivable by forward chaining: the least set that contains the result of every
  intermediate rule each of whose groups holds a fact that is observed or derivable.
\<close>

inductive_set derivable :: "fact list \<Rightarrow> rule list \<Rightarrow> fact set"
  for obs :: "fact list" and rs :: "rule list" where
  fire: "r \<in> set rs \<Longrightarrow> intermediate r
      \<Longrightarrow> \<forall>g \<in> set (groups r). \<exists>s \<in> set g. s \<in> set obs \<or> s \<in> derivable obs rs
      \<Longrightarrow> result r \<in> derivable obs rs"

text \<open>
  The available facts of each group of a rule, in the order of the source: what
  \<open>satisfiedGroups\<close> holds when no group is empty.
\<close>

definition availableGroups :: "fact list \<Rightarrow> fact list \<Rightarrow> rule \<Rightarrow> fact list list" where
  "availableGroups obs der r = map (filter (available obs der)) (groups r)"

text \<open>
  The score as the specification words it: the maximum, over all ways of picking one
  available fact per group, of the number of distinct picked facts that are observed.
  \<open>product_lists\<close> enumerates the picks with the first group outermost and each group in
  its own order, which is the order of the recursive backtracking.
\<close>

definition specScore :: "fact list \<Rightarrow> fact list list \<Rightarrow> nat" where
  "specScore obs sg = Max ((\<lambda>picks. card (set picks \<inter> set obs)) ` set (product_lists sg))"


text \<open>
  No fact occurs in two of the groups.
\<close>

fun disjointGroups :: "fact list list \<Rightarrow> bool" where
  "disjointGroups [] = True"
| "disjointGroups (g # gs) = (set g \<inter> set (concat gs) = {} \<and> disjointGroups gs)"

text \<open>
  A conclusion is eligible when some final rule with that result has, in every group, a
  fact that is observed or derived.
\<close>

definition eligible :: "task \<Rightarrow> fact \<Rightarrow> bool" where
  "eligible t c =
     (\<exists>r \<in> set (rules t). \<not> intermediate r \<and> result r = c \<and>
        (\<forall>g \<in> set (groups r). \<exists>s \<in> set g.
            s \<in> set (observed t) \<or> s \<in> set (derived (evaluateTask t))))"

section \<open>\<open>explore\<close> as a recursion over the remaining groups\<close>

text \<open>
  Proof devices, each shown equal to the code it stands for: the count taken at a leaf, the
  comparison with the best count so far, the leaf of \<open>explore\<close>, the body of its
  \<open>for\<close> loop, the recursion written over the groups from \<open>idx\<close> on, the call
  \<open>explore(0, new Set())\<close> for one rule, and the test that a rule reaches that call.
\<close>

definition observedCount :: "fact list \<Rightarrow> fact list \<Rightarrow> nat" where
  "observedCount obs combo = length (filter (Array_includes obs) combo)"

definition keepBetter :: "fact list \<Rightarrow> nat \<times> fact list \<Rightarrow> fact list \<Rightarrow> nat \<times> fact list" where
  "keepBetter obs acc combo =
     (if observedCount obs combo > fst acc then (observedCount obs combo, combo) else acc)"

definition visitLeaf :: "fact list \<Rightarrow> explore_state \<Rightarrow> explore_state" where
  "visitLeaf obs st =
     (let count = length (filter (Array_includes obs) (currentSet st))
      in if count > bestCount st
         then st\<lparr>bestCount := count, bestSet := currentSet st\<rparr>
         else st)"

definition tryPick ::
  "(explore_state \<Rightarrow> explore_state) \<Rightarrow> fact \<Rightarrow> explore_state \<Rightarrow> explore_state" where
  "tryPick deeper symptom st =
     (let st1 = st\<lparr>currentSet := Set_add (currentSet st) symptom\<rparr>;
          st2 = deeper st1
      in st2\<lparr>currentSet := Set_delete (currentSet st2) symptom\<rparr>)"

fun exploreGroups :: "fact list \<Rightarrow> fact list list \<Rightarrow> explore_state \<Rightarrow> explore_state" where
  "exploreGroups obs [] st = visitLeaf obs st"
| "exploreGroups obs (g # gs) st = fold (tryPick (exploreGroups obs gs)) g st"

definition exploreRule :: "fact list \<Rightarrow> fact list \<Rightarrow> rule \<Rightarrow> explore_state" where
  "exploreRule obs der r =
     explore obs (availableGroups obs der r) 0 \<lparr>currentSet = [], bestCount = 0, bestSet = []\<rparr>"

definition scoring :: "fact list \<Rightarrow> fact list \<Rightarrow> rule \<Rightarrow> bool" where
  "scoring obs der r = (\<not> intermediate r \<and> satisfied obs der r)"

text \<open>
  What holds of the three variables throughout \<open>explore\<close>: both sets have no repeated
  element, \<open>bestCount\<close> is the number of observed facts in \<open>bestSet\<close>, and \<open>bestSet\<close>
  is still the empty set as long as \<open>bestCount\<close> is 0.
\<close>

definition recorded :: "fact list \<Rightarrow> explore_state \<Rightarrow> bool" where
  "recorded obs st \<longleftrightarrow>
     distinct (currentSet st) \<and> distinct (bestSet st)
     \<and> bestCount st = card (set (bestSet st) \<inter> set obs)
     \<and> (bestSet st = [] \<or> 0 < bestCount st)"

section \<open>Forward chaining computes the derivable facts\<close>

lemma satisfied_iff:
  "satisfied obs der r \<longleftrightarrow> (\<forall>g \<in> set (groups r). \<exists>s \<in> set g. s \<in> set obs \<or> s \<in> set der)"
  by (simp add: satisfied_def list_all_iff list_ex_iff available_def Array_includes_def Set_has_def)

lemma satisfied_mono:
  "satisfied obs der r \<Longrightarrow> set obs \<subseteq> set obs' \<Longrightarrow> set der \<subseteq> set der' \<Longrightarrow> satisfied obs' der' r"
  unfolding satisfied_iff by blast

lemma satisfied_derivable:
  assumes "r \<in> set rs" "intermediate r" "satisfied obs der r" "set der \<subseteq> derivable obs rs"
  shows "result r \<in> derivable obs rs"
proof (rule derivable.fire [OF assms(1,2)])
  from assms(3,4) show "\<forall>g \<in> set (groups r). \<exists>s \<in> set g. s \<in> set obs \<or> s \<in> derivable obs rs"
    unfolding satisfied_iff by blast
qed

lemma chainPass_sound:
  "set der \<subseteq> derivable obs rs' \<Longrightarrow> set rs \<subseteq> set rs'
    \<Longrightarrow> set (fst (chainPass obs rs (der, ch))) \<subseteq> derivable obs rs'"
proof (induction rs arbitrary: der ch)
  case Nil
  then show ?case by simp
next
  case (Cons r rs)
  show ?case
  proof (cases "intermediate r \<and> \<not> Set_has der (result r) \<and> satisfied obs der r")
    case True
    with Cons.prems have "result r \<in> derivable obs rs'"
      using satisfied_derivable [of r rs' obs der] by simp
    with Cons.prems have "set (Set_add der (result r)) \<subseteq> derivable obs rs'"
      by (auto simp: Set_add_def)
    with Cons.IH [of "Set_add der (result r)" True] Cons.prems True
    show ?thesis by simp
  next
    case False
    with Cons.IH [of der ch] Cons.prems show ?thesis by auto
  qed
qed

lemma chainPass_True: "snd (chainPass obs rs (der, True))"
  by (induction rs arbitrary: der) simp_all

lemma chainPass_quiet:
  "\<not> snd (chainPass obs rs (der, ch))
    \<Longrightarrow> fst (chainPass obs rs (der, ch)) = der
        \<and> (\<forall>r \<in> set rs. intermediate r \<and> satisfied obs der r \<longrightarrow> result r \<in> set der)"
proof (induction rs arbitrary: der ch)
  case Nil
  then show ?case by simp
next
  case (Cons r rs)
  show ?case
  proof (cases "intermediate r \<and> \<not> Set_has der (result r) \<and> satisfied obs der r")
    case True
    with Cons.prems chainPass_True [of obs rs "Set_add der (result r)"]
    show ?thesis by simp
  next
    case False
    then have eq: "chainPass obs (r # rs) (der, ch) = chainPass obs rs (der, ch)"
      by auto
    with Cons.prems have "\<not> snd (chainPass obs rs (der, ch))"
      by simp
    from Cons.IH [OF this] False eq show ?thesis
      by (auto simp: Set_has_def)
  qed
qed

lemma forwardChain_sound:
  "set der \<subseteq> derivable obs rs \<Longrightarrow> set (forwardChain obs rs der) \<subseteq> derivable obs rs"
proof (induction obs rs der rule: forwardChain.induct)
  case (1 obs rs der)
  obtain der' changed where cp: "chainPass obs rs (der, False) = (der', changed)"
    by (cases "chainPass obs rs (der, False)")
  from chainPass_sound [of der obs rs rs False] "1.prems" cp
  have sub: "set der' \<subseteq> derivable obs rs" by simp
  show ?case
  proof (cases changed)
    case True
    with "1.IH" [OF cp [symmetric] _ sub] cp show ?thesis
      by (simp add: forwardChain.simps [of obs rs der])
  next
    case False
    with cp sub show ?thesis
      by (simp add: forwardChain.simps [of obs rs der])
  qed
qed

lemma forwardChain_closed:
  "r \<in> set rs \<Longrightarrow> intermediate r \<Longrightarrow> satisfied obs (forwardChain obs rs der) r
    \<Longrightarrow> result r \<in> set (forwardChain obs rs der)"
proof (induction obs rs der rule: forwardChain.induct)
  case (1 obs rs der)
  obtain der' changed where cp: "chainPass obs rs (der, False) = (der', changed)"
    by (cases "chainPass obs rs (der, False)")
  show ?case
  proof (cases changed)
    case True
    with cp have eq: "forwardChain obs rs der = forwardChain obs rs der'"
      by (simp add: forwardChain.simps [of obs rs der])
    from "1.IH" [OF cp [symmetric] True] "1.prems" eq show ?thesis
      by simp
  next
    case False
    with cp have eq: "forwardChain obs rs der = der'"
      by (simp add: forwardChain.simps [of obs rs der])
    from False cp chainPass_quiet [of obs rs der False]
    have "der' = der" and "\<forall>r \<in> set rs. intermediate r \<and> satisfied obs der r \<longrightarrow> result r \<in> set der"
      by simp_all
    with "1.prems" eq show ?thesis by simp
  qed
qed

lemma derivable_forwardChain: "x \<in> derivable obs rs \<Longrightarrow> x \<in> set (forwardChain obs rs der)"
proof (induction rule: derivable.induct)
  case (fire r)
  then have "satisfied obs (forwardChain obs rs der) r"
    unfolding satisfied_iff by blast
  with fire.hyps(1,2) show ?case
    by (rule forwardChain_closed)
qed

lemma forwardChain_derivable: "set (forwardChain obs rs []) = derivable obs rs"
  using forwardChain_sound [of "[]" obs rs] derivable_forwardChain [of _ obs rs "[]"] by auto

lemma derivable_mono:
  assumes "set obs \<subseteq> set obs'"
  shows "derivable obs rs \<subseteq> derivable obs' rs"
proof
  fix x assume "x \<in> derivable obs rs"
  then show "x \<in> derivable obs' rs"
  proof (induction rule: derivable.induct)
    case (fire r)
    from fire.hyps(1,2) show ?case
    proof (rule derivable.fire)
      from fire.IH assms
      show "\<forall>g \<in> set (groups r). \<exists>s \<in> set g. s \<in> set obs' \<or> s \<in> derivable obs' rs"
        by blast
    qed
  qed
qed

lemma derivable_absorb:
  assumes "set extra \<subseteq> derivable obs rs"
  shows "derivable (obs @ extra) rs = derivable obs rs"
proof
  show "derivable obs rs \<subseteq> derivable (obs @ extra) rs"
    by (rule derivable_mono) simp
  show "derivable (obs @ extra) rs \<subseteq> derivable obs rs"
  proof
    fix x assume "x \<in> derivable (obs @ extra) rs"
    then show "x \<in> derivable obs rs"
    proof (induction rule: derivable.induct)
      case (fire r)
      from fire.hyps(1,2) show ?case
      proof (rule derivable.fire)
        from fire.IH assms
        show "\<forall>g \<in> set (groups r). \<exists>s \<in> set g. s \<in> set obs \<or> s \<in> derivable obs rs"
          by fastforce
      qed
    qed
  qed
qed

section \<open>What the enumeration computes\<close>

lemma explore_exploreGroups:
  "explore obs sg idx st = exploreGroups obs (drop idx sg) st"
proof (induction obs sg idx st rule: explore.induct)
  case (1 obs sg idx st)
  show ?case
  proof (cases "idx \<ge> length sg")
    case True
    then show ?thesis
      by (simp add: explore.simps [of obs sg idx st] visitLeaf_def)
  next
    case False
    then have d: "drop idx sg = sg ! idx # drop (Suc idx) sg"
      by (simp add: Cons_nth_drop_Suc)
    have "fold (\<lambda>symptom st.
               (let st1 = st\<lparr>currentSet := Set_add (currentSet st) symptom\<rparr>;
                    st2 = explore obs sg (idx + 1) st1
                in st2\<lparr>currentSet := Set_delete (currentSet st2) symptom\<rparr>)) (sg ! idx) st
        = fold (tryPick (exploreGroups obs (drop (Suc idx) sg))) (sg ! idx) st"
    proof (rule fold_cong [OF refl refl])
      fix x assume "x \<in> set (sg ! idx)"
      with "1.IH" False
      show "(\<lambda>st. let st1 = st\<lparr>currentSet := Set_add (currentSet st) x\<rparr>;
                    st2 = explore obs sg (idx + 1) st1
                in st2\<lparr>currentSet := Set_delete (currentSet st2) x\<rparr>)
          = tryPick (exploreGroups obs (drop (Suc idx) sg)) x"
        by (simp add: tryPick_def fun_eq_iff Let_def)
    qed
    with False d show ?thesis
      by (simp add: explore.simps [of obs sg idx st])
  qed
qed

lemma exploreGroups_within:
  "set (currentSet st) \<subseteq> A \<Longrightarrow> set (bestSet st) \<subseteq> A \<Longrightarrow> set (concat gs) \<subseteq> A
    \<Longrightarrow> set (currentSet (exploreGroups obs gs st)) \<subseteq> A
        \<and> set (bestSet (exploreGroups obs gs st)) \<subseteq> A"
proof (induction gs arbitrary: st)
  case Nil
  then show ?case by (simp add: visitLeaf_def Let_def)
next
  case (Cons g gs)
  have step: "set (currentSet (fold (tryPick (exploreGroups obs gs)) xs s)) \<subseteq> A
        \<and> set (bestSet (fold (tryPick (exploreGroups obs gs)) xs s)) \<subseteq> A"
    if "set xs \<subseteq> A" "set (currentSet s) \<subseteq> A" "set (bestSet s) \<subseteq> A" for xs s
    using that
  proof (induction xs arbitrary: s)
    case Nil
    then show ?case by simp
  next
    case (Cons x xs)
    let ?s1 = "s\<lparr>currentSet := Set_add (currentSet s) x\<rparr>"
    from Cons.prems have "set (currentSet ?s1) \<subseteq> A" "set (bestSet ?s1) \<subseteq> A"
      by (auto simp: Set_add_def)
    with Cons.prems \<open>set (concat (g # gs)) \<subseteq> A\<close>
    have "set (currentSet (exploreGroups obs gs ?s1)) \<subseteq> A
        \<and> set (bestSet (exploreGroups obs gs ?s1)) \<subseteq> A"
      using \<open>\<And>st. \<lbrakk>set (currentSet st) \<subseteq> A; set (bestSet st) \<subseteq> A; set (concat gs) \<subseteq> A\<rbrakk>
        \<Longrightarrow> set (currentSet (exploreGroups obs gs st)) \<subseteq> A
          \<and> set (bestSet (exploreGroups obs gs st)) \<subseteq> A\<close> [of ?s1]
      by simp
    then have "set (currentSet (tryPick (exploreGroups obs gs) x s)) \<subseteq> A"
      and "set (bestSet (tryPick (exploreGroups obs gs) x s)) \<subseteq> A"
      by (auto simp: tryPick_def Let_def Set_delete_def)
    with Cons.IH [of "tryPick (exploreGroups obs gs) x s"] Cons.prems show ?case
      by simp
  qed
  from Cons.prems show ?case
    using step [of g st] by simp
qed

lemma fold_tryPick_disjoint:
  assumes deeper: "\<And>x b S. x \<in> set xs \<Longrightarrow>
      deeper \<lparr>currentSet = cs @ [x], bestCount = b, bestSet = S\<rparr>
       = (case fold (\<lambda>picks acc. keepBetter obs acc ((cs @ [x]) @ picks)) pl (b, S) of
            (b', S') \<Rightarrow> \<lparr>currentSet = cs @ [x], bestCount = b', bestSet = S'\<rparr>)"
    and fresh: "set xs \<inter> set cs = {}"
  shows "fold (tryPick deeper) xs \<lparr>currentSet = cs, bestCount = b, bestSet = S\<rparr>
       = (case fold (\<lambda>picks acc. keepBetter obs acc (cs @ picks))
                 (concat (map (\<lambda>x. map ((#) x) pl) xs)) (b, S) of
            (b', S') \<Rightarrow> \<lparr>currentSet = cs, bestCount = b', bestSet = S'\<rparr>)"
  using assms
proof (induction xs arbitrary: b S)
  case Nil
  then show ?case by simp
next
  case (Cons x xs)
  obtain b1 S1 where f1: "fold (\<lambda>picks acc. keepBetter obs acc ((cs @ [x]) @ picks)) pl (b, S) = (b1, S1)"
    by (cases "fold (\<lambda>picks acc. keepBetter obs acc ((cs @ [x]) @ picks)) pl (b, S)")
  from Cons.prems(2) have xcs: "x \<notin> set cs" by auto
  have "tryPick deeper x \<lparr>currentSet = cs, bestCount = b, bestSet = S\<rparr>
      = \<lparr>currentSet = cs, bestCount = b1, bestSet = S1\<rparr>"
    using Cons.prems(1) [of x b S] f1 xcs
    by (simp add: tryPick_def Let_def Set_add_def Set_delete_def)
  moreover have "fold (\<lambda>picks acc. keepBetter obs acc (cs @ picks)) (map ((#) x) pl) (b, S) = (b1, S1)"
    using f1 by (simp add: fold_map comp_def)
  moreover have "fold (tryPick deeper) xs \<lparr>currentSet = cs, bestCount = b1, bestSet = S1\<rparr>
       = (case fold (\<lambda>picks acc. keepBetter obs acc (cs @ picks))
                 (concat (map (\<lambda>x. map ((#) x) pl) xs)) (b1, S1) of
            (b', S') \<Rightarrow> \<lparr>currentSet = cs, bestCount = b', bestSet = S'\<rparr>)"
    using Cons.prems by (intro Cons.IH) auto
  ultimately show ?case by simp
qed

lemma visitLeaf_keepBetter:
  "visitLeaf obs \<lparr>currentSet = cs, bestCount = b, bestSet = S\<rparr>
     = (case keepBetter obs (b, S) cs of
          (b', S') \<Rightarrow> \<lparr>currentSet = cs, bestCount = b', bestSet = S'\<rparr>)"
  by (simp add: visitLeaf_def keepBetter_def observedCount_def Let_def)

lemma exploreGroups_disjoint:
  "disjointGroups gs \<Longrightarrow> set cs \<inter> set (concat gs) = {}
    \<Longrightarrow> exploreGroups obs gs \<lparr>currentSet = cs, bestCount = b, bestSet = S\<rparr>
       = (case fold (\<lambda>picks acc. keepBetter obs acc (cs @ picks)) (product_lists gs) (b, S) of
            (b', S') \<Rightarrow> \<lparr>currentSet = cs, bestCount = b', bestSet = S'\<rparr>)"
proof (induction gs arbitrary: cs b S)
  case Nil
  show ?case by (simp add: visitLeaf_keepBetter)
next
  case (Cons g gs)
  have "fold (tryPick (exploreGroups obs gs)) g \<lparr>currentSet = cs, bestCount = b, bestSet = S\<rparr>
       = (case fold (\<lambda>picks acc. keepBetter obs acc (cs @ picks))
                 (concat (map (\<lambda>x. map ((#) x) (product_lists gs)) g)) (b, S) of
            (b', S') \<Rightarrow> \<lparr>currentSet = cs, bestCount = b', bestSet = S'\<rparr>)"
  proof (rule fold_tryPick_disjoint)
    fix x b S assume "x \<in> set g"
    with Cons.prems have "disjointGroups gs" "set (cs @ [x]) \<inter> set (concat gs) = {}"
      by auto
    then show "exploreGroups obs gs \<lparr>currentSet = cs @ [x], bestCount = b, bestSet = S\<rparr>
       = (case fold (\<lambda>picks acc. keepBetter obs acc ((cs @ [x]) @ picks)) (product_lists gs) (b, S) of
            (b', S') \<Rightarrow> \<lparr>currentSet = cs @ [x], bestCount = b', bestSet = S'\<rparr>)"
      by (rule Cons.IH)
  next
    from Cons.prems show "set g \<inter> set cs = {}" by auto
  qed
  then show ?case by simp
qed

lemma recorded_visitLeaf: "recorded obs st \<Longrightarrow> recorded obs (visitLeaf obs st)"
proof (cases "length (filter (Array_includes obs) (currentSet st)) > bestCount st")
  case True
  assume r: "recorded obs st"
  then have d: "distinct (currentSet st)"
    by (simp add: recorded_def)
  have "{x. Array_includes obs x} = set obs"
    by (auto simp: Array_includes_def)
  with d have "length (filter (Array_includes obs) (currentSet st))
      = card (set (currentSet st) \<inter> set obs)"
    by (simp add: distinct_length_filter Int_commute)
  with True d show ?thesis
    by (auto simp: visitLeaf_def Let_def recorded_def)
next
  case False
  assume "recorded obs st"
  with False show ?thesis
    by (simp add: visitLeaf_def Let_def)
qed

lemma recorded_tryPick:
  assumes "\<And>s. recorded obs s \<Longrightarrow> recorded obs (deeper s)" and "recorded obs st"
  shows "recorded obs (tryPick deeper x st)"
proof -
  from assms(2) have "recorded obs (st\<lparr>currentSet := Set_add (currentSet st) x\<rparr>)"
    by (auto simp: recorded_def Set_add_def)
  then have "recorded obs (deeper (st\<lparr>currentSet := Set_add (currentSet st) x\<rparr>))"
    by (rule assms(1))
  then show ?thesis
    by (auto simp: tryPick_def Let_def recorded_def Set_delete_def distinct_removeAll)
qed

lemma recorded_fold:
  assumes "\<And>s. recorded obs s \<Longrightarrow> recorded obs (deeper s)"
  shows "recorded obs st \<Longrightarrow> recorded obs (fold (tryPick deeper) xs st)"
  by (induction xs arbitrary: st) (simp_all add: recorded_tryPick [OF assms])

lemma recorded_exploreGroups:
  "recorded obs st \<Longrightarrow> recorded obs (exploreGroups obs gs st)"
proof (induction gs arbitrary: st)
  case Nil
  then show ?case by (simp add: recorded_visitLeaf)
next
  case (Cons g gs)
  from Cons.prems show ?case
    by (simp add: recorded_fold [of obs "exploreGroups obs gs", OF Cons.IH])
qed

lemma recorded_exploreRule: "recorded obs (exploreRule obs der r)"
  unfolding exploreRule_def explore_exploreGroups
  by (rule recorded_exploreGroups) (simp add: recorded_def)

lemma keepBetter_fst: "fst (keepBetter obs acc c) = max (fst acc) (observedCount obs c)"
  by (simp add: keepBetter_def)

lemma fold_keepBetter_bounds:
  "fst acc \<le> fst (fold (\<lambda>c acc. keepBetter obs acc c) cs acc)
     \<and> (\<forall>c \<in> set cs. observedCount obs c \<le> fst (fold (\<lambda>c acc. keepBetter obs acc c) cs acc))"
proof (induction cs arbitrary: acc)
  case Nil
  show ?case by simp
next
  case (Cons c cs)
  from Cons.IH [of "keepBetter obs acc c"] show ?case
    by (auto simp: keepBetter_fst)
qed

lemma fold_keepBetter_first:
  "fold (\<lambda>c acc. keepBetter obs acc c) cs acc = acc
     \<or> (fst acc < fst (fold (\<lambda>c acc. keepBetter obs acc c) cs acc)
        \<and> find (\<lambda>c. observedCount obs c = fst (fold (\<lambda>c acc. keepBetter obs acc c) cs acc)) cs
            = Some (snd (fold (\<lambda>c acc. keepBetter obs acc c) cs acc)))"
proof (induction cs arbitrary: acc)
  case Nil
  show ?case by simp
next
  case (Cons c cs)
  let ?r = "fold (\<lambda>c acc. keepBetter obs acc c) cs (keepBetter obs acc c)"
  have r: "fold (\<lambda>c acc. keepBetter obs acc c) (c # cs) acc = ?r"
    by simp
  show ?case
  proof (cases "observedCount obs c > fst acc")
    case True
    then have kb: "keepBetter obs acc c = (observedCount obs c, c)"
      by (simp add: keepBetter_def)
    from Cons.IH [of "keepBetter obs acc c"]
    have "fst acc < fst ?r \<and> find (\<lambda>c. observedCount obs c = fst ?r) (c # cs) = Some (snd ?r)"
    proof
      assume "?r = keepBetter obs acc c"
      with kb True show ?thesis by simp
    next
      assume "fst (keepBetter obs acc c) < fst ?r
        \<and> find (\<lambda>c. observedCount obs c = fst ?r) cs = Some (snd ?r)"
      with kb True show ?thesis by auto
    qed
    with r show ?thesis by simp
  next
    case False
    then have kb: "keepBetter obs acc c = acc"
      by (simp add: keepBetter_def)
    from Cons.IH [of acc] kb False show ?thesis
      by auto
  qed
qed

lemma fold_keepBetter_Max:
  assumes "cs \<noteq> []"
  shows "fst (fold (\<lambda>c acc. keepBetter obs acc c) cs (0, S0)) = Max (observedCount obs ` set cs)"
proof -
  let ?r = "fold (\<lambda>c acc. keepBetter obs acc c) cs (0, S0)"
  from fold_keepBetter_bounds [of "(0, S0)" obs cs]
  have ub: "\<forall>c \<in> set cs. observedCount obs c \<le> fst ?r"
    by simp
  have "fst ?r \<in> observedCount obs ` set cs"
    using fold_keepBetter_first [of obs cs "(0, S0)"]
  proof
    assume "?r = (0, S0)"
    then have z: "fst ?r = 0" by simp
    from assms obtain c where c: "c \<in> set cs"
      by (cases cs) auto
    with ub z have "observedCount obs c = fst ?r" by simp
    with c show ?thesis by (metis imageI)
  next
    assume "fst (0, S0) < fst ?r \<and> find (\<lambda>c. observedCount obs c = fst ?r) cs = Some (snd ?r)"
    then have "find (\<lambda>c. observedCount obs c = fst ?r) cs = Some (snd ?r)" by simp
    then have "snd ?r \<in> set cs" "observedCount obs (snd ?r) = fst ?r"
      by (auto simp: find_Some_iff)
    then show ?thesis by (metis imageI)
  qed
  with ub show ?thesis
    by (intro Max_eqI [symmetric]) auto
qed


lemma product_lists_nonempty: "list_all (\<lambda>g. g \<noteq> []) gs \<Longrightarrow> product_lists gs \<noteq> []"
  by (induction gs) (auto simp: neq_Nil_conv)

lemma product_lists_distinct:
  "disjointGroups gs \<Longrightarrow> picks \<in> set (product_lists gs)
     \<Longrightarrow> distinct picks \<and> set picks \<subseteq> set (concat gs)"
proof (induction gs arbitrary: picks)
  case Nil
  then show ?case by simp
next
  case (Cons g gs)
  from Cons.prems(2) obtain x rest where p: "picks = x # rest" "x \<in> set g" "rest \<in> set (product_lists gs)"
    by auto
  with Cons.IH [of rest] Cons.prems(1) have "distinct rest" "set rest \<subseteq> set (concat gs)"
    by auto
  with p Cons.prems(1) show ?case by auto
qed

lemma observedCount_card:
  "distinct picks \<Longrightarrow> observedCount obs picks = card (set picks \<inter> set obs)"
  by (simp add: observedCount_def Array_includes_def distinct_length_filter Int_commute)

lemma specScore_observedCount:
  assumes "disjointGroups sg"
  shows "specScore obs sg = Max (observedCount obs ` set (product_lists sg))"
proof -
  have "(\<lambda>picks. card (set picks \<inter> set obs)) ` set (product_lists sg)
      = observedCount obs ` set (product_lists sg)"
    using product_lists_distinct [OF assms] by (intro image_cong) (auto simp: observedCount_card)
  then show ?thesis by (simp add: specScore_def)
qed

section \<open>The scoring loop\<close>

lemma map_of_obj_set: "map_of (obj_set obj k v) = (map_of obj)(k \<mapsto> v)"
  by (induction obj) (auto simp: fun_eq_iff)

lemma keys_obj_set: "fst ` set (obj_set obj k v) = insert k (fst ` set obj)"
  by (simp add: dom_map_of_conv_image_fst [symmetric] map_of_obj_set)

lemma map_of_obj_set_number:
  "map_of (obj_set_number obj k v) = (if k = ''__proto__'' then map_of obj else (map_of obj)(k \<mapsto> v))"
  by (simp add: obj_set_number_def map_of_obj_set)

lemma keys_obj_set_number:
  "fst ` set (obj_set_number obj k v)
     = (if k = ''__proto__'' then fst ` set obj else insert k (fst ` set obj))"
  by (simp add: obj_set_number_def keys_obj_set)

lemma collectGroups_eq:
  "collectGroups obs der gs acc =
     (if list_all (\<lambda>g. list_ex (available obs der) g) gs
      then Some (acc @ map (filter (available obs der)) gs) else None)"
proof (induction gs arbitrary: acc)
  case Nil
  show ?case by simp
next
  case (Cons g gs)
  have "filter (available obs der) g = [] \<longleftrightarrow> \<not> list_ex (available obs der) g"
    by (simp add: filter_empty_conv list_ex_iff)
  with Cons.IH [of "acc @ [filter (available obs der) g]"] show ?case
    by (simp add: Let_def)
qed

lemma collectGroups_rule:
  "collectGroups obs der (groups r) [] =
     (if satisfied obs der r then Some (availableGroups obs der r) else None)"
  by (simp add: collectGroups_eq satisfied_def availableGroups_def)

lemma scoreRules_Cons:
  "scoreRules obs der (r # rs) (fs, uc) =
     (if scoring obs der r
      then scoreRules obs der rs
             (obj_set_number fs (result r) (bestCount (exploreRule obs der r)),
              obj_set uc (result r) (bestSet (exploreRule obs der r)))
      else scoreRules obs der rs (fs, uc))"
  by (simp add: collectGroups_rule scoring_def exploreRule_def Let_def)

declare scoreRules.simps(2) [simp del]

lemma scoreRules_append:
  "scoreRules obs der (xs @ ys) acc = scoreRules obs der ys (scoreRules obs der xs acc)"
proof (induction xs arbitrary: acc)
  case Nil
  show ?case by (cases acc) simp
next
  case (Cons r xs)
  show ?case
    by (cases acc) (simp add: scoreRules_Cons Cons.IH)
qed

lemma scoreRules_keys:
  "fst ` set (fst (scoreRules obs der rs (fs, uc)))
      = fst ` set fs \<union> (result ` {r \<in> set rs. scoring obs der r} - {''__proto__''})
   \<and> fst ` set (snd (scoreRules obs der rs (fs, uc)))
      = fst ` set uc \<union> result ` {r \<in> set rs. scoring obs der r}"
proof (induction rs arbitrary: fs uc)
  case Nil
  show ?case by simp
next
  case (Cons r rs)
  show ?case
  proof (cases "scoring obs der r")
    case True
    let ?fs = "obj_set_number fs (result r) (bestCount (exploreRule obs der r))"
    let ?uc = "obj_set uc (result r) (bestSet (exploreRule obs der r))"
    from True have step: "scoreRules obs der (r # rs) (fs, uc) = scoreRules obs der rs (?fs, ?uc)"
      by (simp add: scoreRules_Cons)
    from True have sc: "{x \<in> set (r # rs). scoring obs der x}
        = insert r {x \<in> set rs. scoring obs der x}"
      by auto
    have "fst ` set ?fs \<union> (result ` {x \<in> set rs. scoring obs der x} - {''__proto__''})
        = fst ` set fs \<union> (result ` insert r {x \<in> set rs. scoring obs der x} - {''__proto__''})"
      by (cases "result r = ''__proto__''") (auto simp: keys_obj_set_number)
    moreover have "fst ` set ?uc \<union> result ` {x \<in> set rs. scoring obs der x}
        = fst ` set uc \<union> result ` insert r {x \<in> set rs. scoring obs der x}"
      by (auto simp: keys_obj_set)
    ultimately show ?thesis
      using Cons.IH [of ?fs ?uc] unfolding step sc by simp
  next
    case False
    with Cons.IH [of fs uc] show ?thesis
      by (auto simp: scoreRules_Cons)
  qed
qed

lemma scoreRules_untouched:
  "\<forall>r \<in> set rs. scoring obs der r \<longrightarrow> result r \<noteq> c
    \<Longrightarrow> map_of (fst (scoreRules obs der rs (fs, uc))) c = map_of fs c
      \<and> map_of (snd (scoreRules obs der rs (fs, uc))) c = map_of uc c"
proof (induction rs arbitrary: fs uc)
  case Nil
  show ?case by simp
next
  case (Cons r rs)
  show ?case
  proof (cases "scoring obs der r")
    case True
    with Cons.prems have "result r \<noteq> c" by simp
    with True Cons.prems
      Cons.IH [of "obj_set_number fs (result r) (bestCount (exploreRule obs der r))"
                  "obj_set uc (result r) (bestSet (exploreRule obs der r))"]
    show ?thesis
      by (simp add: scoreRules_Cons map_of_obj_set map_of_obj_set_number)
  next
    case False
    with Cons.IH [of fs uc] Cons.prems show ?thesis
      by (simp add: scoreRules_Cons)
  qed
qed

lemma scoreRules_last:
  assumes "scoring obs der r"
    and "\<forall>r' \<in> set post. scoring obs der r' \<longrightarrow> result r' \<noteq> result r"
  shows "(result r \<noteq> ''__proto__'' \<longrightarrow>
            map_of (fst (scoreRules obs der (pre @ r # post) acc)) (result r)
              = Some (bestCount (exploreRule obs der r)))
       \<and> map_of (snd (scoreRules obs der (pre @ r # post) acc)) (result r)
           = Some (bestSet (exploreRule obs der r))"
proof -
  obtain fs uc where a: "scoreRules obs der pre acc = (fs, uc)"
    by (cases "scoreRules obs der pre acc")
  from assms(1) a have "scoreRules obs der (pre @ r # post) acc
      = scoreRules obs der post
          (obj_set_number fs (result r) (bestCount (exploreRule obs der r)),
           obj_set uc (result r) (bestSet (exploreRule obs der r)))"
    by (simp add: scoreRules_append scoreRules_Cons)
  with scoreRules_untouched [OF assms(2)] show ?thesis
    by (simp add: map_of_obj_set map_of_obj_set_number)
qed

lemma scoreRules_origin_usedCombos:
  "map_of (snd (scoreRules obs der rs (fs, uc))) c = Some S
    \<Longrightarrow> map_of uc c = Some S
      \<or> (\<exists>r \<in> set rs. scoring obs der r \<and> result r = c \<and> S = bestSet (exploreRule obs der r))"
proof (induction rs arbitrary: fs uc)
  case Nil
  then show ?case by simp
next
  case (Cons r rs)
  show ?case
  proof (cases "scoring obs der r")
    case True
    let ?fs = "obj_set_number fs (result r) (bestCount (exploreRule obs der r))"
    let ?uc = "obj_set uc (result r) (bestSet (exploreRule obs der r))"
    from True Cons.prems
    have "map_of (snd (scoreRules obs der rs (?fs, ?uc))) c = Some S"
      by (simp add: scoreRules_Cons)
    from Cons.IH [OF this] True show ?thesis
      by (auto simp: map_of_obj_set split: if_splits)
  next
    case False
    with Cons.prems
    have "map_of (snd (scoreRules obs der rs (fs, uc))) c = Some S"
      by (simp add: scoreRules_Cons)
    from Cons.IH [OF this] show ?thesis
      by auto
  qed
qed

lemma scoreRules_origin:
  "map_of (fst (scoreRules obs der rs (fs, uc))) c = Some v
    \<Longrightarrow> map_of (snd (scoreRules obs der rs (fs, uc))) c = Some S
    \<Longrightarrow> c \<noteq> ''__proto__''
    \<Longrightarrow> (map_of fs c = Some v \<and> map_of uc c = Some S)
      \<or> (\<exists>r \<in> set rs. scoring obs der r \<and> result r = c
            \<and> v = bestCount (exploreRule obs der r) \<and> S = bestSet (exploreRule obs der r))"
proof (induction rs arbitrary: fs uc)
  case Nil
  then show ?case by simp
next
  case (Cons r rs)
  show ?case
  proof (cases "scoring obs der r")
    case True
    let ?fs = "obj_set_number fs (result r) (bestCount (exploreRule obs der r))"
    let ?uc = "obj_set uc (result r) (bestSet (exploreRule obs der r))"
    from True Cons.prems
    have "map_of (fst (scoreRules obs der rs (?fs, ?uc))) c = Some v"
      and "map_of (snd (scoreRules obs der rs (?fs, ?uc))) c = Some S"
      by (simp_all add: scoreRules_Cons)
    from Cons.IH [OF this Cons.prems(3)] True Cons.prems(3) show ?thesis
      by (auto simp: map_of_obj_set map_of_obj_set_number split: if_splits)
  next
    case False
    with Cons.prems
    have "map_of (fst (scoreRules obs der rs (fs, uc))) c = Some v"
      and "map_of (snd (scoreRules obs der rs (fs, uc))) c = Some S"
      by (simp_all add: scoreRules_Cons)
    from Cons.IH [OF this Cons.prems(3)] show ?thesis
      by auto
  qed
qed


lemma derived_evaluateTask:
  "derived (evaluateTask t) = forwardChain (observed t) (rules t) []"
  by (simp add: evaluateTask_def Let_def split: prod.split)

lemma finalScores_evaluateTask:
  "finalScores (evaluateTask t)
     = fst (scoreRules (observed t) (derived (evaluateTask t)) (rules t) ([], []))"
  by (simp add: evaluateTask_def Let_def split: prod.split)

lemma usedCombos_evaluateTask:
  "usedCombos (evaluateTask t)
     = snd (scoreRules (observed t) (derived (evaluateTask t)) (rules t) ([], []))"
  by (simp add: evaluateTask_def Let_def split: prod.split)

lemma set_derived_evaluateTask:
  "set (derived (evaluateTask t)) = derivable (observed t) (rules t)"
  by (simp add: derived_evaluateTask forwardChain_derivable)

lemma availableGroups_nonempty:
  "satisfied obs der r \<Longrightarrow> list_all (\<lambda>g. g \<noteq> []) (availableGroups obs der r)"
  by (auto simp: satisfied_def availableGroups_def list_all_iff list_ex_iff filter_empty_conv)

lemma exploreRule_fold:
  assumes "disjointGroups (availableGroups obs der r)"
  shows "exploreRule obs der r =
     (case fold (\<lambda>picks acc. keepBetter obs acc picks)
             (product_lists (availableGroups obs der r)) (0, []) of
        (b', S') \<Rightarrow> \<lparr>currentSet = [], bestCount = b', bestSet = S'\<rparr>)"
  using exploreGroups_disjoint [OF assms, of "[]" obs 0 "[]"]
  by (simp add: exploreRule_def explore_exploreGroups)

lemma exploreRule_specScore:
  assumes "satisfied obs der r" and "disjointGroups (availableGroups obs der r)"
  shows "bestCount (exploreRule obs der r) = specScore obs (availableGroups obs der r)"
proof -
  let ?pl = "product_lists (availableGroups obs der r)"
  from assms(1) have ne: "?pl \<noteq> []"
    by (intro product_lists_nonempty availableGroups_nonempty)
  have "bestCount (exploreRule obs der r) = fst (fold (\<lambda>picks acc. keepBetter obs acc picks) ?pl (0, []))"
    by (simp add: exploreRule_fold [OF assms(2)] split: prod.split)
  also have "\<dots> = Max (observedCount obs ` set ?pl)"
    using ne by (rule fold_keepBetter_Max)
  also have "\<dots> = specScore obs (availableGroups obs der r)"
    using assms(2) by (rule specScore_observedCount [symmetric])
  finally show ?thesis .
qed


lemma availableGroups_within:
  "set (concat (availableGroups obs der r)) \<subseteq> set obs \<union> set der"
  by (auto simp: availableGroups_def available_def Array_includes_def Set_has_def)

lemma exploreRule_within: "set (bestSet (exploreRule obs der r)) \<subseteq> set obs \<union> set der"
  using exploreGroups_within [of "\<lparr>currentSet = [], bestCount = 0, bestSet = []\<rparr>"
      "set obs \<union> set der" "availableGroups obs der r" obs] availableGroups_within [of obs der r]
  by (simp add: exploreRule_def explore_exploreGroups)

lemma finalScores_keys:
  "fst ` set (finalScores (evaluateTask t))
     = result ` {r \<in> set (rules t). scoring (observed t) (derived (evaluateTask t)) r}
         - {''__proto__''}"
  using scoreRules_keys [of "observed t" "derived (evaluateTask t)" "rules t" "[]" "[]"]
  by (simp add: finalScores_evaluateTask)

lemma usedCombos_keys:
  "fst ` set (usedCombos (evaluateTask t))
     = result ` {r \<in> set (rules t). scoring (observed t) (derived (evaluateTask t)) r}"
  using scoreRules_keys [of "observed t" "derived (evaluateTask t)" "rules t" "[]" "[]"]
  by (simp add: usedCombos_evaluateTask)


lemma usedCombos_count:
  assumes "map_of (finalScores (evaluateTask t)) c = Some v"
    and "map_of (usedCombos (evaluateTask t)) c = Some S"
  shows "card (set S \<inter> set (observed t)) = v \<and> (v = 0 \<longrightarrow> S = [])"
proof -
  from assms(1) have "c \<in> fst ` set (finalScores (evaluateTask t))"
    by (metis map_of_eq_None_iff option.distinct(1))
  then have "c \<noteq> ''__proto__''"
    by (auto simp: finalScores_keys)
  with scoreRules_origin [of "observed t" "derived (evaluateTask t)" "rules t" "[]" "[]" c v S] assms
  obtain r where "v = bestCount (exploreRule (observed t) (derived (evaluateTask t)) r)"
    and "S = bestSet (exploreRule (observed t) (derived (evaluateTask t)) r)"
    by (auto simp: finalScores_evaluateTask usedCombos_evaluateTask)
  with recorded_exploreRule [of "observed t" "derived (evaluateTask t)" r] show ?thesis
    by (auto simp: recorded_def)
qed

lemma last_rule_entry:
  assumes "rules t = pre @ r # post"
    and "\<not> intermediate r"
    and "satisfied (observed t) (derived (evaluateTask t)) r"
    and "\<forall>r' \<in> set post. \<not> intermediate r' \<and> satisfied (observed t) (derived (evaluateTask t)) r'
            \<longrightarrow> result r' \<noteq> result r"
  shows "(result r \<noteq> ''__proto__'' \<longrightarrow>
            map_of (finalScores (evaluateTask t)) (result r)
              = Some (bestCount (exploreRule (observed t) (derived (evaluateTask t)) r)))
       \<and> map_of (usedCombos (evaluateTask t)) (result r)
           = Some (bestSet (exploreRule (observed t) (derived (evaluateTask t)) r))"
proof -
  let ?obs = "observed t" and ?der = "derived (evaluateTask t)"
  from assms(2,3) have sc: "scoring ?obs ?der r"
    by (simp add: scoring_def)
  from assms(4) have later: "\<forall>r' \<in> set post. scoring ?obs ?der r' \<longrightarrow> result r' \<noteq> result r"
    by (simp add: scoring_def)
  from scoreRules_last [OF sc later, of pre "([], [])"] assms(1) show ?thesis
    by (simp add: finalScores_evaluateTask usedCombos_evaluateTask)
qed


lemma disjointGroups_filter:
  "disjointGroups (map (filter Q) gs) \<Longrightarrow> (\<And>x. P x \<Longrightarrow> Q x)
    \<Longrightarrow> disjointGroups (map (filter P) gs)"
proof (induction gs)
  case Nil
  show ?case by simp
next
  case (Cons g gs)
  from Cons.prems(2) have "set (concat (map (filter P) gs)) \<subseteq> set (concat (map (filter Q) gs))"
    and "set (filter P g) \<subseteq> set (filter Q g)"
    by auto
  with Cons show ?case
    by (simp only: list.map disjointGroups.simps) blast
qed

lemma product_lists_filter_mono:
  assumes "\<And>x. P x \<Longrightarrow> Q x"
  shows "set (product_lists (map (filter P) gs)) \<subseteq> set (product_lists (map (filter Q) gs))"
proof (induction gs)
  case Nil
  show ?case by simp
next
  case (Cons g gs)
  with assms show ?case by auto
qed

lemma specScore_mono:
  assumes sub: "set (product_lists sg) \<subseteq> set (product_lists sg')"
    and ne: "product_lists sg \<noteq> []"
    and obs: "set obs \<subseteq> set obs'"
  shows "specScore obs sg \<le> specScore obs' sg'"
  unfolding specScore_def
proof (rule Max.boundedI)
  show "finite ((\<lambda>picks. card (set picks \<inter> set obs)) ` set (product_lists sg))"
    by simp
  from ne show "(\<lambda>picks. card (set picks \<inter> set obs)) ` set (product_lists sg) \<noteq> {}"
    by simp
next
  fix a assume "a \<in> (\<lambda>picks. card (set picks \<inter> set obs)) ` set (product_lists sg)"
  then obtain picks where p: "picks \<in> set (product_lists sg)" and a: "a = card (set picks \<inter> set obs)"
    by auto
  from obs have "a \<le> card (set picks \<inter> set obs')"
    unfolding a by (intro card_mono) auto
  also from p sub have "\<dots> \<le> Max ((\<lambda>picks. card (set picks \<inter> set obs')) ` set (product_lists sg'))"
    by (intro Max_ge) auto
  finally show "a \<le> Max ((\<lambda>picks. card (set picks \<inter> set obs')) ` set (product_lists sg'))" .
qed

lemma available_mono:
  "available obs der x \<Longrightarrow> set obs \<subseteq> set obs' \<Longrightarrow> set der \<subseteq> set der' \<Longrightarrow> available obs' der' x"
  by (auto simp: available_def Array_includes_def Set_has_def)

lemma single_rule_split:
  assumes "filter (\<lambda>x. \<not> intermediate x \<and> result x = c) rs = [r]"
  shows "\<exists>pre post. rs = pre @ r # post \<and> \<not> intermediate r \<and> result r = c
           \<and> (\<forall>x \<in> set pre \<union> set post. \<not> intermediate x \<longrightarrow> result x \<noteq> c)"
proof -
  from assms obtain pre post where "rs = pre @ r # post"
    "\<forall>u \<in> set pre. \<not> (\<not> intermediate u \<and> result u = c)" "\<not> intermediate r \<and> result r = c"
    "[] = filter (\<lambda>x. \<not> intermediate x \<and> result x = c) post"
    unfolding filter_eq_Cons_iff by blast
  moreover from this(4) have "\<forall>u \<in> set post. \<not> (\<not> intermediate u \<and> result u = c)"
    by (metis (mono_tags, lifting) filter_empty_conv)
  ultimately show ?thesis by blast
qed

lemma Math_max_Max: "vs \<noteq> [] \<Longrightarrow> Math_max vs = Some (Max (set vs))"
  by (cases vs) (simp_all add: Math_max_def Max.set_eq_fold [symmetric])

section \<open>The engine on the tasks\<close>


lemma task1_observed:
  "observed task1 = [''thirsty'', ''vomiting'', ''bloating'', ''migraine'', ''brain fog'']"
  by (simp add: task1_def)

lemma task1_rules: "rules task1 = plan"
  by (simp add: task1_def)

lemma task1_derived:
  "derived (evaluateTask task1) = [''broken bones'', ''low blood pressure'']"
  by code_simp

lemma task1_finalScores:
  "finalScores (evaluateTask task1) = [(''tranquilizers'', 3), (''vitamins'', 2)]"
  by code_simp

lemma task1_usedCombos:
  "usedCombos (evaluateTask task1) =
     [(''tranquilizers'', [''migraine'', ''thirsty'', ''bloating'', ''low blood pressure'']),
      (''vitamins'', [''broken bones'', ''thirsty'', ''vomiting''])]"
  by code_simp

lemma emptyGroupsTask_eval:
  "evaluateTask emptyGroupsTask
     = \<lparr>derived = [''x''], finalScores = [(''m'', 0)], usedCombos = [(''m'', [])]\<rparr>"
  by code_simp

lemma overwriteTask_eval:
  "evaluateTask overwriteTask
     = \<lparr>derived = [], finalScores = [(''m'', 1)], usedCombos = [(''m'', [''c''])]\<rparr>"
  by code_simp

lemma overwriteTask_smaller_eval:
  "evaluateTask \<lparr>task_id = 0, rules = overwriteRules, observed = [''a'', ''b'']\<rparr>
     = \<lparr>derived = [], finalScores = [(''m'', 2)], usedCombos = [(''m'', [''a'', ''b''])]\<rparr>"
  by code_simp


lemma sharedFactTask_eval:
  "evaluateTask sharedFactTask
     = \<lparr>derived = [''a''], finalScores = [(''m'', 1)], usedCombos = [(''m'', [''b''])]\<rparr>"
  by code_simp

lemma overwriteTask_first_rule:
  "overwriteRules ! 0 \<in> set (rules overwriteTask)
   \<and> \<not> intermediate (overwriteRules ! 0)
   \<and> result (overwriteRules ! 0) = ''m''
   \<and> satisfied (observed overwriteTask) (derived (evaluateTask overwriteTask)) (overwriteRules ! 0)"
  by code_simp

lemma overwriteTask_first_rule_specScore:
  "specScore (observed overwriteTask)
     (availableGroups (observed overwriteTask) (derived (evaluateTask overwriteTask))
        (overwriteRules ! 0)) = 2"
  by code_simp











lemma task1_fewer_tranquilizers:
  "map_of (finalScores (evaluateTask \<lparr>task_id = 1, rules = plan,
       observed = [''thirsty'', ''bloating'', ''migraine'', ''brain fog'']\<rparr>)) ''tranquilizers''
     = Some 3"
  by code_simp

lemma plan_tranquilizers_single:
  "filter (\<lambda>x. \<not> intermediate x \<and> result x = ''tranquilizers'') plan = [plan ! 4]"
  by code_simp

lemma task1_unfolded_disjoint:
  "disjointGroups (availableGroups
      [''thirsty'', ''vomiting'', ''bloating'', ''migraine'', ''brain fog'']
      (derived (evaluateTask \<lparr>task_id = 1, rules = plan,
         observed = [''thirsty'', ''vomiting'', ''bloating'', ''migraine'', ''brain fog'']\<rparr>))
      (plan ! 4))"
  by code_simp

lemma task2_vitamins_split: "rules task2 = take 6 plan @ plan ! 6 # drop 7 plan"
  by (simp add: task2_def plan_def)

lemma task2_vitamins_final: "\<not> intermediate (plan ! 6)"
  by (simp add: plan_def)

lemma task2_vitamins_result: "result (plan ! 6) = ''vitamins''"
  by (simp add: plan_def)

lemma task2_vitamins_named: "result (plan ! 6) \<noteq> ''__proto__''"
  by (simp add: plan_def)

lemma task2_vitamins_satisfied:
  "satisfied (observed task2) (derived (evaluateTask task2)) (plan ! 6)"
  by code_simp

lemma task2_vitamins_last:
  "\<forall>r' \<in> set (drop 7 plan).
     \<not> intermediate r' \<and> satisfied (observed task2) (derived (evaluateTask task2)) r'
       \<longrightarrow> result r' \<noteq> result (plan ! 6)"
  by code_simp

lemma task2_vitamins_disjoint:
  "disjointGroups (availableGroups (observed task2) (derived (evaluateTask task2)) (plan ! 6))"
  by code_simp

lemma task2_vitamins_combinations:
  "product_lists (availableGroups (observed task2) (derived (evaluateTask task2)) (plan ! 6))
     = [[''broken bones'', ''thirsty'', ''vomiting''], [''seizures'', ''thirsty'', ''vomiting'']]"
  by code_simp

lemma task2_vitamins_specScore:
  "specScore (observed task2)
     (availableGroups (observed task2) (derived (evaluateTask task2)) (plan ! 6)) = 3"
  by code_simp




lemma emptyGroupsTask_no_proto: "\<not> eligible emptyGroupsTask ''__proto__''"
  by code_simp


text \<open>
  The final rule with the groups \<open>a\<close> and \<open>a, b\<close>, both facts observed: the picks
  \<open>a\<close> and \<open>b\<close> would count 2, the engine records 1.
\<close>

lemma shared_fact_score:
  "finalScores (evaluateTask \<lparr>task_id = 0,
       rules = [\<lparr>groups = [[''a''], [''a'', ''b'']], result = ''m'', intermediate = False\<rparr>],
       observed = [''a'', ''b'']\<rparr>) = [(''m'', 1)]
   \<and> specScore [''a'', ''b''] [[''a''], [''a'', ''b'']] = 2"
  by code_simp



section \<open>The claims\<close>

subsection \<open>C1: task 1\<close>

text \<open>
  C1, as it is in the code. On task 1 the derived set is \<open>broken bones\<close> and
  \<open>low blood pressure\<close> (each has one group, and \<open>brain fog\<close> is observed in it) and
  does not hold \<open>fast heart rate\<close> (its second group \<open>slurred speech, seizures, sleepy\<close>
  has no observed or derived fact). The score of \<open>tranquilizers\<close> is 3, \<open>stimulants\<close>
  and \<open>antibiotics\<close> are not keys of \<open>finalScores\<close>, and \<open>tranquilizers\<close> is the only
  key whose score is the maximum.
\<close>

theorem task1_evaluation:
  "set (derived (evaluateTask task1)) = {''broken bones'', ''low blood pressure''}
   \<and> ''fast heart rate'' \<notin> set (derived (evaluateTask task1))
   \<and> map_of (finalScores (evaluateTask task1)) ''tranquilizers'' = Some 3
   \<and> ''stimulants'' \<notin> set (Object_keys (finalScores (evaluateTask task1)))
   \<and> ''antibiotics'' \<notin> set (Object_keys (finalScores (evaluateTask task1)))
   \<and> filter (\<lambda>m. map_of (finalScores (evaluateTask task1)) m
                    = Math_max (Object_values (finalScores (evaluateTask task1))))
        (Object_keys (finalScores (evaluateTask task1))) = [''tranquilizers'']"
  by (simp add: task1_derived task1_finalScores Object_keys_def Object_values_def Math_max_def)

text \<open>
  The claim as stated expects the derived set the other way round: \<open>fast heart rate\<close> in,
  \<open>broken bones\<close> and \<open>low blood pressure\<close> out. That conjunction is false.
\<close>

theorem task1_expected_derived_counterexample:
  "\<not> (''fast heart rate'' \<in> set (derived (evaluateTask task1))
      \<and> ''broken bones'' \<notin> set (derived (evaluateTask task1))
      \<and> ''low blood pressure'' \<notin> set (derived (evaluateTask task1))
      \<and> (case map_of (finalScores (evaluateTask task1)) ''tranquilizers'' of
            None \<Rightarrow> False | Some v \<Rightarrow> 3 \<le> v)
      \<and> ''stimulants'' \<notin> set (Object_keys (finalScores (evaluateTask task1)))
      \<and> ''antibiotics'' \<notin> set (Object_keys (finalScores (evaluateTask task1)))
      \<and> filter (\<lambda>m. map_of (finalScores (evaluateTask task1)) m
                       = Math_max (Object_values (finalScores (evaluateTask task1))))
           (Object_keys (finalScores (evaluateTask task1))) = [''tranquilizers''])"
  by (simp add: task1_derived)

subsection \<open>C2: where the used evidence comes from\<close>

text \<open>
  C2, as it is in the code. For every task and every key \<open>c\<close> of \<open>usedCombos\<close>, the
  recorded set holds only facts that are observed or derived: \<open>bestSet\<close> is a copy of
  \<open>currentSet\<close>, which holds the picks themselves, derived ones included.
\<close>

theorem usedCombos_within_available:
  assumes "map_of (usedCombos (evaluateTask t)) c = Some S"
  shows "set S \<subseteq> set (observed t) \<union> set (derived (evaluateTask t))"
proof -
  let ?obs = "observed t" and ?der = "derived (evaluateTask t)"
  from scoreRules_origin_usedCombos [of ?obs ?der "rules t" "[]" "[]" c S] assms
  obtain r where "S = bestSet (exploreRule ?obs ?der r)"
    by (auto simp: usedCombos_evaluateTask)
  then show ?thesis
    by (simp add: exploreRule_within)
qed

theorem usedCombos_within_available_witness:
  "map_of (usedCombos (evaluateTask task1)) ''tranquilizers''
     = Some [''migraine'', ''thirsty'', ''bloating'', ''low blood pressure'']
   \<and> set [''migraine'', ''thirsty'', ''bloating'', ''low blood pressure'']
       \<subseteq> set (observed task1) \<union> set (derived (evaluateTask task1))"
proof -
  have h: "map_of (usedCombos (evaluateTask task1)) ''tranquilizers''
     = Some [''migraine'', ''thirsty'', ''bloating'', ''low blood pressure'']"
    by (simp add: task1_usedCombos)
  from usedCombos_within_available [OF h] h show ?thesis by simp
qed

text \<open>
  The claim as stated wants the recorded set inside the observed facts. On task 1 the set
  recorded for \<open>tranquilizers\<close> holds the derived fact \<open>low blood pressure\<close>.
\<close>

theorem usedCombos_within_observed_counterexample:
  "\<not> (case map_of (usedCombos (evaluateTask task1)) ''tranquilizers'' of
        None \<Rightarrow> True
      | Some S \<Rightarrow> set S \<subseteq> set (observed task1))"
  by (simp add: task1_usedCombos task1_observed)

subsection \<open>C3: rules without groups\<close>

text \<open>
  C3, as it is in the code. A rule whose \<open>groups\<close> array is empty is always satisfied:
  \<open>every\<close> of an empty array is \<open>true\<close>, and the loop that fills \<open>satisfiedGroups\<close>
  never runs, so \<open>allSatisfied\<close> stays \<open>true\<close>. An intermediate rule without groups
  always has its result in \<open>derived\<close>. A final rule without groups whose result is not
  the name \<open>__proto__\<close> always has its result among the keys of \<open>finalScores\<close>, and
  among the keys of \<open>usedCombos\<close> as well when \<open>__proto__\<close> is not an eligible
  conclusion of the task. (An assignment to \<open>__proto__\<close> creates no key.)
\<close>

theorem empty_groups_always_satisfied:
  assumes "r \<in> set (rules t)" and "groups r = []"
  shows "(intermediate r \<longrightarrow> result r \<in> set (derived (evaluateTask t)))
       \<and> (\<not> intermediate r \<and> result r \<noteq> ''__proto__'' \<longrightarrow>
            result r \<in> set (Object_keys (finalScores (evaluateTask t))))
       \<and> (\<not> intermediate r \<and> \<not> eligible t ''__proto__'' \<longrightarrow>
            result r \<in> set (Object_keys (usedCombos (evaluateTask t))))"
proof -
  let ?obs = "observed t" and ?der = "derived (evaluateTask t)"
  from assms(2) have sat: "satisfied ?obs d r" for d
    by (simp add: satisfied_def)
  have "result r \<in> set ?der" if "intermediate r"
    unfolding derived_evaluateTask
    using assms(1) that sat by (rule forwardChain_closed)
  moreover have "result r \<in> set (Object_keys (finalScores (evaluateTask t)))"
    if "\<not> intermediate r" and "result r \<noteq> ''__proto__''"
  proof -
    from that(1) sat assms(1) have "result r \<in> result ` {r \<in> set (rules t). scoring ?obs ?der r}"
      by (auto simp: scoring_def)
    with that(2) show ?thesis
      by (simp add: Object_keys_def finalScores_keys)
  qed
  moreover have "result r \<in> set (Object_keys (usedCombos (evaluateTask t)))"
    if "\<not> intermediate r"
  proof -
    from that sat assms(1) have "result r \<in> result ` {r \<in> set (rules t). scoring ?obs ?der r}"
      by (auto simp: scoring_def)
    then show ?thesis
      by (simp add: Object_keys_def usedCombos_keys)
  qed
  ultimately show ?thesis by blast
qed

theorem empty_groups_always_satisfied_witness:
  "''x'' \<in> set (derived (evaluateTask emptyGroupsTask))
   \<and> ''m'' \<in> set (Object_keys (finalScores (evaluateTask emptyGroupsTask)))
   \<and> ''m'' \<in> set (Object_keys (usedCombos (evaluateTask emptyGroupsTask)))"
  using empty_groups_always_satisfied
      [of "\<lparr>groups = [], result = ''x'', intermediate = True\<rparr>" emptyGroupsTask]
    empty_groups_always_satisfied
      [of "\<lparr>groups = [], result = ''m'', intermediate = False\<rparr>" emptyGroupsTask]
    emptyGroupsTask_no_proto
  by (simp add: emptyGroupsTask_def)

text \<open>
  The claim as stated says such rules are never satisfied. With one intermediate and one
  final rule without groups and nothing observed, \<open>x\<close> is derived and \<open>m\<close> is a key of
  both objects.
\<close>

theorem empty_groups_never_satisfied_counterexample:
  "\<not> (''x'' \<notin> set (derived (evaluateTask emptyGroupsTask))
      \<and> ''m'' \<notin> set (Object_keys (finalScores (evaluateTask emptyGroupsTask)))
      \<and> ''m'' \<notin> set (Object_keys (usedCombos (evaluateTask emptyGroupsTask))))"
  by (simp add: emptyGroupsTask_eval)

subsection \<open>C4: the score is the maximum over the picks\<close>

text \<open>
  C4, for the rule that writes the entry last and whose groups share no available fact.
  Let \<open>r\<close> be a final rule of the task all of whose groups have an available fact, let
  its result not be the name \<open>__proto__\<close> (a number assigned to that name is ignored),
  let no later final rule with every group available have the same result, and let no
  available fact occur in two groups of \<open>r\<close>. Then \<open>finalScores[r.result]\<close> is the
  maximum, over all ways of picking one available fact per group, of the number of
  distinct picked facts that are observed.
\<close>

theorem finalScores_specScore:
  assumes "rules t = pre @ r # post"
    and "\<not> intermediate r"
    and "satisfied (observed t) (derived (evaluateTask t)) r"
    and "\<forall>r' \<in> set post. \<not> intermediate r' \<and> satisfied (observed t) (derived (evaluateTask t)) r'
            \<longrightarrow> result r' \<noteq> result r"
    and "disjointGroups (availableGroups (observed t) (derived (evaluateTask t)) r)"
    and "result r \<noteq> ''__proto__''"
  shows "map_of (finalScores (evaluateTask t)) (result r)
           = Some (specScore (observed t) (availableGroups (observed t) (derived (evaluateTask t)) r))"
proof -
  from last_rule_entry [OF assms(1-4)] assms(6)
  have "map_of (finalScores (evaluateTask t)) (result r)
      = Some (bestCount (exploreRule (observed t) (derived (evaluateTask t)) r))"
    by simp
  also from assms(3,5)
  have "bestCount (exploreRule (observed t) (derived (evaluateTask t)) r)
      = specScore (observed t) (availableGroups (observed t) (derived (evaluateTask t)) r)"
    by (rule exploreRule_specScore)
  finally show ?thesis .
qed

text \<open>
  On task 2 the rule for \<open>vitamins\<close> has two combinations: \<open>broken bones\<close>, \<open>thirsty\<close>,
  \<open>vomiting\<close> counts 2 (the first pick is derived) and \<open>seizures\<close>, \<open>thirsty\<close>,
  \<open>vomiting\<close> counts 3.
\<close>

theorem finalScores_specScore_witness:
  "map_of (finalScores (evaluateTask task2)) ''vitamins'' = Some 3
   \<and> product_lists (availableGroups (observed task2) (derived (evaluateTask task2)) (plan ! 6))
       = [[''broken bones'', ''thirsty'', ''vomiting''], [''seizures'', ''thirsty'', ''vomiting'']]
   \<and> specScore (observed task2)
        (availableGroups (observed task2) (derived (evaluateTask task2)) (plan ! 6)) = 3"
  using finalScores_specScore [OF task2_vitamins_split task2_vitamins_final
      task2_vitamins_satisfied task2_vitamins_last task2_vitamins_disjoint task2_vitamins_named]
  unfolding task2_vitamins_result task2_vitamins_specScore task2_vitamins_combinations
  by simp

text \<open>
  The claim as stated speaks of every final rule with all groups available. When two such
  rules have the same result the later one overwrites the entry: here the first rule
  reaches 2 with \<open>a\<close> and \<open>b\<close>, and the entry is the 1 of the second rule.
\<close>

theorem finalScores_specScore_counterexample:
  "overwriteRules ! 0 \<in> set (rules overwriteTask)
   \<and> \<not> intermediate (overwriteRules ! 0)
   \<and> satisfied (observed overwriteTask) (derived (evaluateTask overwriteTask)) (overwriteRules ! 0)
   \<and> map_of (finalScores (evaluateTask overwriteTask)) (result (overwriteRules ! 0))
       \<noteq> Some (specScore (observed overwriteTask)
                 (availableGroups (observed overwriteTask) (derived (evaluateTask overwriteTask))
                    (overwriteRules ! 0)))"
proof -
  have "map_of (finalScores (evaluateTask overwriteTask)) (result (overwriteRules ! 0)) = Some 1"
    by (simp add: overwriteTask_eval overwriteRules_def)
  then show ?thesis
    unfolding overwriteTask_first_rule_specScore using overwriteTask_first_rule by simp
qed

subsection \<open>C5: which conclusions are keys\<close>




subsection \<open>C6: more observations\<close>

text \<open>
  C6, as far as the code goes. For a fixed rule list and observed arrays with
  \<open>O \<subseteq> O'\<close>: every fact derived from \<open>O\<close> is derived from \<open>O'\<close>; every key of
  \<open>finalScores\<close> under \<open>O\<close> is a key under \<open>O'\<close>; and for a conclusion \<open>c\<close> that is the
  result of exactly one final rule, no available fact of which (under \<open>O'\<close>) occurs in two
  of its groups, the score under \<open>O'\<close> is at least the score under \<open>O\<close>.
\<close>

theorem evaluateTask_monotone:
  assumes "set obs \<subseteq> set obs'"
  shows "set (derived (evaluateTask \<lparr>task_id = i, rules = rs, observed = obs\<rparr>))
           \<subseteq> set (derived (evaluateTask \<lparr>task_id = i, rules = rs, observed = obs'\<rparr>))
       \<and> set (Object_keys (finalScores (evaluateTask \<lparr>task_id = i, rules = rs, observed = obs\<rparr>)))
           \<subseteq> set (Object_keys (finalScores (evaluateTask \<lparr>task_id = i, rules = rs, observed = obs'\<rparr>)))
       \<and> (\<forall>c r v.
            filter (\<lambda>x. \<not> intermediate x \<and> result x = c) rs = [r]
          \<and> disjointGroups (availableGroups obs'
                (derived (evaluateTask \<lparr>task_id = i, rules = rs, observed = obs'\<rparr>)) r)
          \<and> map_of (finalScores (evaluateTask \<lparr>task_id = i, rules = rs, observed = obs\<rparr>)) c = Some v
          \<longrightarrow> (\<exists>v'. map_of (finalScores (evaluateTask \<lparr>task_id = i, rules = rs, observed = obs'\<rparr>)) c
                      = Some v' \<and> v \<le> v'))"
proof -
  let ?t = "\<lparr>task_id = i, rules = rs, observed = obs\<rparr>"
  let ?t' = "\<lparr>task_id = i, rules = rs, observed = obs'\<rparr>"
  let ?der = "derived (evaluateTask ?t)" and ?der' = "derived (evaluateTask ?t')"
  have der: "set ?der \<subseteq> set ?der'"
    using derivable_mono [OF assms, of rs] by (simp add: set_derived_evaluateTask)
  have sat: "satisfied obs' ?der' r" if "satisfied obs ?der r" for r
    using that assms der by (rule satisfied_mono)
  have keys: "set (Object_keys (finalScores (evaluateTask ?t)))
      = result ` {r \<in> set rs. scoring obs ?der r} - {''__proto__''}"
    "set (Object_keys (finalScores (evaluateTask ?t')))
      = result ` {r \<in> set rs. scoring obs' ?der' r} - {''__proto__''}"
    using finalScores_keys [of ?t] finalScores_keys [of ?t']
    by (simp_all add: Object_keys_def)
  have keys_sub: "set (Object_keys (finalScores (evaluateTask ?t)))
      \<subseteq> set (Object_keys (finalScores (evaluateTask ?t')))"
    unfolding keys using sat by (auto simp: scoring_def)
  have score: "\<exists>v'. map_of (finalScores (evaluateTask ?t')) c = Some v' \<and> v \<le> v'"
    if single: "filter (\<lambda>x. \<not> intermediate x \<and> result x = c) rs = [r]"
      and dis': "disjointGroups (availableGroups obs' ?der' r)"
      and v: "map_of (finalScores (evaluateTask ?t)) c = Some v" for c r v
  proof -
    from single_rule_split [OF single] obtain pre post where
      rs: "rs = pre @ r # post" and fin: "\<not> intermediate r" and res: "result r = c"
      and others: "\<forall>x \<in> set pre \<union> set post. \<not> intermediate x \<longrightarrow> result x \<noteq> c"
      by blast
    from v have "c \<in> set (Object_keys (finalScores (evaluateTask ?t)))"
      by (metis Object_keys_def map_of_eq_None_iff option.distinct(1) set_map)
    then obtain x where x: "x \<in> set rs" "scoring obs ?der x" "result x = c"
      and named: "c \<noteq> ''__proto__''"
      unfolding keys by auto
    with others rs have "x = r"
      by (auto simp: scoring_def)
    with x have satr: "satisfied obs ?der r"
      by (simp add: scoring_def)
    then have satr': "satisfied obs' ?der' r"
      by (rule sat)
    have imp: "available obs ?der y \<Longrightarrow> available obs' ?der' y" for y
      using assms der by (auto intro: available_mono)
    from dis' have dis: "disjointGroups (availableGroups obs ?der r)"
      unfolding availableGroups_def using imp by (rule disjointGroups_filter)
    from others res have later: "\<forall>r' \<in> set post. \<not> intermediate r' \<and> satisfied (observed ?t) (derived (evaluateTask ?t)) r'
            \<longrightarrow> result r' \<noteq> result r"
      and later': "\<forall>r' \<in> set post. \<not> intermediate r' \<and> satisfied (observed ?t') (derived (evaluateTask ?t')) r'
            \<longrightarrow> result r' \<noteq> result r"
      by auto
    have "map_of (finalScores (evaluateTask ?t)) (result r)
        = Some (bestCount (exploreRule obs ?der r))"
      using last_rule_entry [of ?t pre r post] rs fin satr later res named by simp
    with v res exploreRule_specScore [OF satr dis]
    have v_eq: "v = specScore obs (availableGroups obs ?der r)"
      by simp
    have "map_of (finalScores (evaluateTask ?t')) (result r)
        = Some (bestCount (exploreRule obs' ?der' r))"
      using last_rule_entry [of ?t' pre r post] rs fin satr' later' res named by simp
    with exploreRule_specScore [OF satr' dis']
    have v': "map_of (finalScores (evaluateTask ?t')) (result r)
        = Some (specScore obs' (availableGroups obs' ?der' r))"
      by simp
    have "specScore obs (availableGroups obs ?der r) \<le> specScore obs' (availableGroups obs' ?der' r)"
    proof (rule specScore_mono)
      show "set (product_lists (availableGroups obs ?der r))
          \<subseteq> set (product_lists (availableGroups obs' ?der' r))"
        unfolding availableGroups_def using imp by (rule product_lists_filter_mono)
      from satr show "product_lists (availableGroups obs ?der r) \<noteq> []"
        by (intro product_lists_nonempty availableGroups_nonempty)
      show "set obs \<subseteq> set obs'" by (rule assms)
    qed
    with v_eq v' res show ?thesis by simp
  qed
  from der keys_sub score show ?thesis by blast
qed

theorem evaluateTask_monotone_witness:
  "set [''thirsty'', ''bloating'', ''migraine'', ''brain fog'']
     \<subseteq> set [''thirsty'', ''vomiting'', ''bloating'', ''migraine'', ''brain fog'']
   \<and> set (derived (evaluateTask \<lparr>task_id = 1, rules = plan,
         observed = [''thirsty'', ''bloating'', ''migraine'', ''brain fog'']\<rparr>))
     \<subseteq> set (derived (evaluateTask \<lparr>task_id = 1, rules = plan,
         observed = [''thirsty'', ''vomiting'', ''bloating'', ''migraine'', ''brain fog'']\<rparr>))
   \<and> (\<exists>v'. map_of (finalScores (evaluateTask \<lparr>task_id = 1, rules = plan,
           observed = [''thirsty'', ''vomiting'', ''bloating'', ''migraine'', ''brain fog'']\<rparr>))
           ''tranquilizers'' = Some v' \<and> 3 \<le> v')"
proof -
  have sub: "set [''thirsty'', ''bloating'', ''migraine'', ''brain fog'']
     \<subseteq> set [''thirsty'', ''vomiting'', ''bloating'', ''migraine'', ''brain fog'']"
    by simp
  note mono = evaluateTask_monotone [OF sub, of 1 plan]
  from mono [THEN conjunct2, THEN conjunct2, rule_format,
      OF conjI [OF plan_tranquilizers_single conjI [OF task1_unfolded_disjoint task1_fewer_tranquilizers]]]
    mono [THEN conjunct1] sub
  show ?thesis by blast
qed

text \<open>
  The claim as stated promises the score for every conclusion. With two final rules for
  \<open>m\<close>, observing \<open>c\<close> as well makes the second rule write the entry: the score of \<open>m\<close>
  goes from 2 to 1.
\<close>

theorem evaluateTask_monotone_counterexample:
  "set [''a'', ''b''] \<subseteq> set [''a'', ''b'', ''c'']
   \<and> map_of (finalScores (evaluateTask
         \<lparr>task_id = 0, rules = overwriteRules, observed = [''a'', ''b'']\<rparr>)) ''m'' = Some 2
   \<and> map_of (finalScores (evaluateTask
         \<lparr>task_id = 0, rules = overwriteRules, observed = [''a'', ''b'', ''c'']\<rparr>)) ''m'' = Some 1"
  using overwriteTask_eval by (simp add: overwriteTask_smaller_eval overwriteTask_def)

subsection \<open>C7: deriving again\<close>

text \<open>
  C7. For every rule list and observed array, forward chaining from the observed facts
  together with the facts already derived from them yields the same derived set as forward
  chaining from the observed facts alone.
\<close>

theorem derived_idempotent:
  "set (derived (evaluateTask \<lparr>task_id = i, rules = rs,
          observed = obs @ derived (evaluateTask \<lparr>task_id = i, rules = rs, observed = obs\<rparr>)\<rparr>))
     = set (derived (evaluateTask \<lparr>task_id = i, rules = rs, observed = obs\<rparr>))"
  by (simp add: set_derived_evaluateTask derivable_absorb)

subsection \<open>C8: which combination is recorded\<close>




subsection \<open>C9: grading the answer\<close>

text \<open>
  C9. For every \<open>finalScores\<close> object with at least one entry and every chosen conclusion
  \<open>c\<close>, possibly \<open>null\<close>: the grade is \<open>best\<close> when \<open>c\<close> is a key whose value is the
  maximum value of the object, \<open>suboptimal\<close> when it is not and \<open>finalScores[c] > 0\<close>,
  and \<open>wrong\<close> otherwise, which covers \<open>null\<close> and a conclusion that is not a key. A
  chosen conclusion is the value of a radio button built from \<open>finalMedicines\<close>, hence not
  the empty string, the one string that \<open>if (finalAnswer)\<close> treats like \<open>null\<close>.
\<close>

theorem finalizeAnswer_correctness_classifies:
  assumes "evalScores \<noteq> []" and "c \<noteq> Some []"
  shows "finalizeAnswer_correctness evalScores c =
     (case c of
        None \<Rightarrow> wrong
      | Some a \<Rightarrow>
          if map_of evalScores a = Some (Max (set (Object_values evalScores))) then best
          else if (\<exists>v. map_of evalScores a = Some v \<and> 0 < v) then suboptimal
          else wrong)"
proof (cases c)
  case None
  then show ?thesis by simp
next
  case (Some a)
  with assms(2) have a: "a \<noteq> []" by simp
  from assms(1) have mx: "Math_max (Object_values evalScores)
      = Some (Max (set (Object_values evalScores)))"
    by (intro Math_max_Max) (simp add: Object_values_def)
  have mem: "a \<in> set (filter (\<lambda>m. case map_of evalScores m of None \<Rightarrow> False
                 | Some v \<Rightarrow> Some v = Some (Max (set (Object_values evalScores))))
               (Object_keys evalScores))
      \<longleftrightarrow> map_of evalScores a = Some (Max (set (Object_values evalScores)))"
    by (auto simp: Object_keys_def split: option.splits dest: map_of_SomeD
             intro: rev_image_eqI)
  have pos: "(case map_of evalScores a of None \<Rightarrow> False | Some v \<Rightarrow> v > 0)
      \<longleftrightarrow> (\<exists>v. map_of evalScores a = Some v \<and> 0 < v)"
    by (auto split: option.splits)
  from Some a show ?thesis
    by (simp only: finalizeAnswer_correctness.simps Let_def mx mem pos option.case if_False)
qed

theorem finalizeAnswer_correctness_classifies_witness:
  "finalScores (evaluateTask task1) \<noteq> [] \<and> Some ''vitamins'' \<noteq> Some []
   \<and> finalizeAnswer_correctness (finalScores (evaluateTask task1)) (Some ''vitamins'') = suboptimal
   \<and> finalizeAnswer_correctness (finalScores (evaluateTask task1)) (Some ''tranquilizers'') = best
   \<and> finalizeAnswer_correctness (finalScores (evaluateTask task1)) (Some ''laxatives'') = wrong
   \<and> finalizeAnswer_correctness (finalScores (evaluateTask task1)) None = wrong"
  using finalizeAnswer_correctness_classifies [of "finalScores (evaluateTask task1)" "Some ''vitamins''"]
    finalizeAnswer_correctness_classifies [of "finalScores (evaluateTask task1)" "Some ''tranquilizers''"]
    finalizeAnswer_correctness_classifies [of "finalScores (evaluateTask task1)" "Some ''laxatives''"]
    finalizeAnswer_correctness_classifies [of "finalScores (evaluateTask task1)" None]
  by (simp add: task1_finalScores Object_values_def)

subsection \<open>C10: the recorded set need not pick from every group\<close>

text \<open>
  C10 at a task whose final rule has the groups \<open>a\<close> and \<open>a, b\<close>, with \<open>b\<close> observed
  and \<open>a\<close> derived from it. The second level of \<open>explore\<close> adds \<open>a\<close>, which the set
  already holds from the first level, and then deletes it, so that the pick \<open>b\<close> is
  counted in a set without \<open>a\<close>. The score is 1 and the recorded set is \<open>b\<close> alone, which
  holds no fact of the first group. The rest of C10 holds on every task, by
  \<open>usedCombos_count\<close>: the observed facts of the recorded set number the score, and a
  score of 0 comes with the empty set.
\<close>

theorem sharedFactTask_usedCombos_misses_group:
  "map_of (finalScores (evaluateTask sharedFactTask)) ''m'' = Some 1
   \<and> map_of (usedCombos (evaluateTask sharedFactTask)) ''m'' = Some [''b'']
   \<and> groups (rules sharedFactTask ! 1) = [[''a''], [''a'', ''b'']]
   \<and> set [''b''] \<inter> set (groups (rules sharedFactTask ! 1) ! 0) = {}"
  by (simp add: sharedFactTask_eval) (simp add: sharedFactTask_def)

end
